theory Spec2Isabelle
  imports Complex_Main "HOL-Library.AList"
begin

section \<open>Python values and exceptions\<close>

text \<open>
  The program is \<^verbatim>\<open>src/app.py\<close>. Its floats are modelled as real numbers: rounding
  error, infinities and NaN are left out, and an operation that Python lets overflow
  silently keeps its exact value here. What Python \<^emph>\<open>raises\<close> is kept: every exception
  of the source is a value \<open>Inl e\<close> of a result type \<open>exn + 'a\<close>.

  An exception raised by the interpreter carries no text in the model (its message
  depends on the interpreter's version); \<open>Raised m\<close> is an exception coming from
  outside (the HTTP client, the database driver, a queue) whose \<^verbatim>\<open>str()\<close> is \<open>m\<close>.
\<close>

datatype exn =
    ZeroDivisionError
  | OverflowError
  | AttributeError
  | TypeError
  | ValueError
  | Raised string

fun str_exn :: "exn \<Rightarrow> string" where
  "str_exn ZeroDivisionError = ''ZeroDivisionError''"
| "str_exn OverflowError = ''OverflowError''"
| "str_exn AttributeError = ''AttributeError''"
| "str_exn TypeError = ''TypeError''"
| "str_exn ValueError = ''ValueError''"
| "str_exn (Raised m) = m"

text \<open>
  The smallest magnitude that no longer rounds to a finite double: the largest double
  is \<open>2^1024 - 2^971\<close>, and half a unit in the last place above it rounds up.
\<close>

definition overflow_bound :: real where
  "overflow_bound = 2 ^ 1024 - 2 ^ 970"

definition py_div :: "real \<Rightarrow> real \<Rightarrow> exn + real" where
  \<comment> \<open>\<^verbatim>\<open>a / b\<close> on floats\<close>
  "py_div a b = (if b = 0 then Inl ZeroDivisionError else Inr (a / b))"

definition py_pow2 :: "real \<Rightarrow> exn + real" where
  \<comment> \<open>\<^verbatim>\<open>a ** 2\<close> on a float: the one float operation of the source that raises on overflow\<close>
  "py_pow2 a = (if overflow_bound \<le> a ^ 2 then Inl OverflowError else Inr (a ^ 2))"

definition round_half_even :: "real \<Rightarrow> int" where
  "round_half_even r =
     (let f = \<lfloor>r\<rfloor>; d = r - of_int f
      in if d < 1 / 2 then f else if 1 / 2 < d then f + 1 else if even f then f else f + 1)"

definition round3 :: "real \<Rightarrow> real" where
  \<comment> \<open>\<^verbatim>\<open>round(x, 3)\<close>\<close>
  "round3 x = of_int (round_half_even (x * 1000)) / 1000"

section \<open>StatsEngine: \<^verbatim>\<open>calc_stats\<close>\<close>

text \<open>
  \<^verbatim>\<open>sum((x-mean)**2 for x in series)\<close>: the generator is consumed from the left, the
  running total starts at 0, and the first square that overflows ends the sum.
\<close>

fun sum_squares :: "real \<Rightarrow> real \<Rightarrow> real list \<Rightarrow> exn + real" where
  "sum_squares mean acc [] = Inr acc"
| "sum_squares mean acc (x # xs) =
     (case py_pow2 (x - mean) of
        Inl e \<Rightarrow> Inl e
      | Inr q \<Rightarrow> sum_squares mean (acc + q) xs)"

definition calc_stats :: "real list \<Rightarrow> exn + real \<times> real \<times> real" where
  "calc_stats series =
     (case series of
        [] \<Rightarrow> Inr (0, 0, 0)
      | first # _ \<Rightarrow>
         (case py_div (sum_list series) (of_nat (length series)) of
            Inl e \<Rightarrow> Inl e
          | Inr score \<Rightarrow>
         (case py_div (last series - first) (of_int (max (int (length series) - 1) 1)) of
            Inl e \<Rightarrow> Inl e
          | Inr velocity \<Rightarrow>
         (case sum_squares score 0 series of
            Inl e \<Rightarrow> Inl e
          | Inr sq \<Rightarrow>
         (case py_div sq (of_nat (length series)) of
            Inl e \<Rightarrow> Inl e
          | Inr var \<Rightarrow>
         (case py_div 1 (1 + sqrt var) of
            Inl e \<Rightarrow> Inl e
          | Inr trust \<Rightarrow> Inr (round3 score, round3 velocity, round3 trust)))))))"

text \<open>
  The population standard deviation, as the specification words it: the square root of
  the mean squared deviation from the arithmetic mean.
\<close>

definition mean :: "real list \<Rightarrow> real" where
  "mean xs = sum_list xs / of_nat (length xs)"


section \<open>Payloads\<close>

text \<open>
  What \<^verbatim>\<open>r.json()\<close> returns. Python's \<^verbatim>\<open>None\<close> is \<open>JNull\<close>; a dict keeps its
  keys in insertion order and is looked up with \<open>map_of\<close>.
\<close>

datatype json =
    JNull
  | JBool bool
  | JInt int
  | JFloat real
  | JStr string
  | JList "json list"
  | JDict "(string \<times> json) list"

fun is_dict :: "json \<Rightarrow> bool" where
  \<comment> \<open>\<^verbatim>\<open>isinstance(x, dict)\<close>\<close>
  "is_dict (JDict d) = True"
| "is_dict _ = False"

fun dict_get :: "json \<Rightarrow> string \<Rightarrow> json \<Rightarrow> exn + json" where
  \<comment> \<open>\<^verbatim>\<open>x.get(k, default)\<close>: only a dict has the method\<close>
  "dict_get (JDict d) k dflt = Inr (case map_of d k of None \<Rightarrow> dflt | Some v \<Rightarrow> v)"
| "dict_get _ k dflt = Inl AttributeError"

fun truthy :: "json \<Rightarrow> bool" where
  "truthy JNull = False"
| "truthy (JBool b) = b"
| "truthy (JInt i) = (i \<noteq> 0)"
| "truthy (JFloat r) = (r \<noteq> 0)"
| "truthy (JStr s) = (s \<noteq> [])"
| "truthy (JList xs) = (xs \<noteq> [])"
| "truthy (JDict d) = (d \<noteq> [])"

text \<open>
  \<^verbatim>\<open>float(x)\<close>. Parsing a string is the interpreter's; it is the parameter \<open>parse\<close>,
  \<open>None\<close> where Python raises \<^verbatim>\<open>ValueError\<close>. An integer too large for a double raises.
\<close>

fun py_float :: "(string \<Rightarrow> real option) \<Rightarrow> json \<Rightarrow> exn + real" where
  "py_float parse (JFloat r) = Inr r"
| "py_float parse (JInt i) =
     (if overflow_bound \<le> \<bar>of_int i\<bar> then Inl OverflowError else Inr (of_int i))"
| "py_float parse (JBool b) = Inr (if b then 1 else 0)"
| "py_float parse (JStr s) = (case parse s of None \<Rightarrow> Inl ValueError | Some r \<Rightarrow> Inr r)"
| "py_float parse _ = Inl TypeError"

text \<open>
  Membership in a Python set goes by hash and \<^verbatim>\<open>==\<close>: \<^verbatim>\<open>True\<close>, \<^verbatim>\<open>1\<close> and \<^verbatim>\<open>1.0\<close>
  are one element, and a list or a dict cannot be hashed.
\<close>

datatype key = KNone | KNum real | KStr string

fun py_hash :: "json \<Rightarrow> exn + key" where
  "py_hash JNull = Inr KNone"
| "py_hash (JBool b) = Inr (KNum (if b then 1 else 0))"
| "py_hash (JInt i) = Inr (KNum (of_int i))"
| "py_hash (JFloat r) = Inr (KNum r)"
| "py_hash (JStr s) = Inr (KStr s)"
| "py_hash _ = Inl TypeError"

definition last_n :: "nat \<Rightarrow> 'a list \<Rightarrow> 'a list" where
  \<comment> \<open>\<^verbatim>\<open>xs[-n:]\<close> for a positive \<open>n\<close>\<close>
  "last_n n xs = drop (length xs - n) xs"

fun slice_last :: "nat \<Rightarrow> json \<Rightarrow> exn + json" where
  \<comment> \<open>\<^verbatim>\<open>x[-n:]\<close> on a payload value: lists and strings can be sliced. Anything else
      raises; for a dict the class depends on the interpreter (\<^verbatim>\<open>TypeError\<close> up to
      Python 3.11, \<^verbatim>\<open>KeyError\<close> after), and the model says \<^verbatim>\<open>TypeError\<close>.\<close>
  "slice_last n (JList xs) = Inr (JList (last_n n xs))"
| "slice_last n (JStr s) = Inr (JStr (last_n n s))"
| "slice_last n _ = Inl TypeError"

fun slice_first :: "nat \<Rightarrow> json \<Rightarrow> exn + json" where
  \<comment> \<open>\<^verbatim>\<open>x[:n]\<close>\<close>
  "slice_first n (JList xs) = Inr (JList (take n xs))"
| "slice_first n (JStr s) = Inr (JStr (take n s))"
| "slice_first n _ = Inl TypeError"

fun py_iter :: "json \<Rightarrow> exn + json list" where
  \<comment> \<open>the elements a \<^verbatim>\<open>for\<close> loop visits: a string yields its characters, a dict its keys\<close>
  "py_iter (JList xs) = Inr xs"
| "py_iter (JStr s) = Inr (map (\<lambda>c. JStr [c]) s)"
| "py_iter (JDict d) = Inr (map (\<lambda>kv. JStr (fst kv)) d)"
| "py_iter _ = Inl TypeError"

section \<open>State\<close>

record score_row =
  name :: string
  score :: real
  velocity :: real
  trust :: real
  ts :: real

record narrative =
  title :: json
  source :: string
  t_narr :: real

record incident =
  kind :: string
  message :: string
  t_inc :: real

datatype payload = ScoresMsg "score_row list" | NarrativesMsg "narrative list"

text \<open>
  The process state: the dict \<^verbatim>\<open>state\<close> (\<open>scores\<close>, \<open>narratives\<close>, \<open>incidents\<close>,
  \<open>clients\<close>), the three tables of the database, and the variables the worker keeps
  across ticks (\<open>prices\<close>, \<open>hn_seen\<close>, \<open>reddit_seen\<close>). A subscriber queue is a number;
  \<open>clients\<close> lists the registered ones without repetition and \<open>queues\<close> holds what
  each has been sent.
\<close>

record state =
  scores :: "score_row list"
  narratives :: "narrative list"
  incidents :: "incident list"
  clients :: "nat list"
  queues :: "nat \<Rightarrow> payload list"
  db_scores :: "score_row list"
  db_narratives :: "narrative list"
  db_incidents :: "incident list"
  prices :: "(string \<times> real list) list"
  hn_seen :: "key set"
  reddit_seen :: "key set"

definition init_state :: state where
  "init_state =
     \<lparr>scores = [], narratives = [], incidents = [], clients = [], queues = (\<lambda>q. []),
      db_scores = [], db_narratives = [], db_incidents = [],
      prices = [(''bitcoin'', []), (''ethereum'', [])], hn_seen = {}, reddit_seen = {}\<rparr>"

text \<open>
  What the outside world does during a call is an argument of the call: the clock, the
  outcome of an HTTP request (\<open>Inl\<close> for anything raised inside the \<^verbatim>\<open>try\<close> of
  \<^verbatim>\<open>fetch_json\<close>: network error, error status, unparsable body), whether a database
  transaction raises, and which queues raise on \<^verbatim>\<open>put\<close>.
\<close>

record log_world =
  log_time :: real
  log_db :: "exn option"

record fetch_world =
  http :: "exn + json"
  on_fail :: log_world

record tick_world =
  now :: real
  cg :: fetch_world
  wiki :: fetch_world
  hn :: fetch_world
  red :: fetch_world
  news :: fetch_world
  persist_db :: "exn option"
  put_scores :: "nat \<Rightarrow> bool"
  put_narratives :: "nat \<Rightarrow> bool"
  on_error :: log_world

text \<open>
  What is fixed for the life of the process: the environment variable \<^verbatim>\<open>NEWSAPI_KEY\<close>,
  and how \<^verbatim>\<open>float()\<close> reads a string (\<open>None\<close> where it raises \<^verbatim>\<open>ValueError\<close>).
\<close>

record config =
  NEWSAPI_KEY :: string
  float_of_str :: "string \<Rightarrow> real option"

section \<open>IncidentLog, Fetcher, Broadcaster\<close>

definition log_incident :: "string \<Rightarrow> string \<Rightarrow> log_world \<Rightarrow> state \<Rightarrow> exn option \<times> state" where
  "log_incident knd msg w s =
     (let inc = \<lparr>kind = knd, message = msg, t_inc = log_time w\<rparr>;
          s' = s\<lparr>incidents := last_n 100 (incidents s @ [inc])\<rparr>
      in case log_db w of
           Some e \<Rightarrow> (Some e, s')
         | None \<Rightarrow> (None, s'\<lparr>db_incidents := db_incidents s' @ [inc]\<rparr>))"

text \<open>
  The \<^verbatim>\<open>timeout\<close> and \<^verbatim>\<open>headers\<close> of \<^verbatim>\<open>fetch_json\<close> bear on the request only, whose
  outcome is given by the world; the URL also goes into the incident.
\<close>

definition fetch_json :: "string \<Rightarrow> fetch_world \<Rightarrow> state \<Rightarrow> (exn + json) \<times> state" where
  "fetch_json url w s =
     (case http w of
        Inr body \<Rightarrow> (Inr body, s)
      | Inl e \<Rightarrow>
         (case log_incident ''fetch_error'' (url @ '' -> '' @ str_exn e) (on_fail w) s of
            (Some e', s') \<Rightarrow> (Inl e', s')
          | (None, s') \<Rightarrow> (Inr JNull, s')))"

fun deliver ::
  "(nat \<Rightarrow> bool) \<Rightarrow> payload \<Rightarrow> nat list \<Rightarrow> nat list \<times> (nat \<Rightarrow> payload list)
     \<Rightarrow> nat list \<times> (nat \<Rightarrow> payload list)" where
  "deliver raises p [] (dead, qs) = (dead, qs)"
| "deliver raises p (q # rest) (dead, qs) =
     (if raises q then deliver raises p rest (dead @ [q], qs)
      else deliver raises p rest (dead, qs(q := qs q @ [p])))"

definition broadcast :: "payload \<Rightarrow> (nat \<Rightarrow> bool) \<Rightarrow> state \<Rightarrow> state" where
  "broadcast p raises s =
     (case deliver raises p (clients s) ([], queues s) of
        (dead, qs) \<Rightarrow> s\<lparr>clients := fold removeAll dead (clients s), queues := qs\<rparr>)"

definition push_scores :: "score_row list \<Rightarrow> (nat \<Rightarrow> bool) \<Rightarrow> state \<Rightarrow> state" where
  "push_scores rows raises s = broadcast (ScoresMsg rows) raises (s\<lparr>scores := rows\<rparr>)"

definition push_narratives :: "narrative list \<Rightarrow> (nat \<Rightarrow> bool) \<Rightarrow> state \<Rightarrow> state" where
  "push_narratives rows raises s =
     broadcast (NarrativesMsg rows) raises (s\<lparr>narratives := rows\<rparr>)"

definition stream :: "nat \<Rightarrow> state \<Rightarrow> state" where
  \<comment> \<open>the \<^verbatim>\<open>/stream\<close> route registers a fresh queue\<close>
  "stream q s = s\<lparr>clients := List.insert q (clients s)\<rparr>"

section \<open>Aggregator: one tick of \<^verbatim>\<open>worker\<close>\<close>

definition CG_URL :: string where
  "CG_URL = ''https://api.coingecko.com/api/v3/simple/price?ids=bitcoin,ethereum&vs_currencies=usd''"

definition WIKI_URL :: string where
  "WIKI_URL = ''https://wikimedia.org/api/rest_v1/metrics/edit/aggregate/all-projects/all-editor-types/all-page-types/daily/20240101/20240131''"

definition HN_URL :: string where
  "HN_URL = ''https://hn.algolia.com/api/v1/search?tags=front_page''"

definition REDDIT_URL :: string where
  "REDDIT_URL = ''https://www.reddit.com/r/technology/top.json?t=day&limit=10''"

definition NEWS_URL :: "config \<Rightarrow> string" where
  "NEWS_URL su =
     ''https://newsapi.org/v2/top-headlines?language=en&pageSize=10&apiKey='' @ NEWSAPI_KEY su"

subsection \<open>CoinGecko: the price windows\<close>

definition coin_price :: "config \<Rightarrow> json \<Rightarrow> string \<Rightarrow> exn + real" where
  \<comment> \<open>\<^verbatim>\<open>float(cg.get(coin,{}).get("usd",0.0))\<close>\<close>
  "coin_price su body coin =
     (case dict_get body coin (JDict []) of
        Inl e \<Rightarrow> Inl e
      | Inr inner \<Rightarrow>
         (case dict_get inner ''usd'' (JFloat 0) of
            Inl e \<Rightarrow> Inl e
          | Inr u \<Rightarrow> py_float (float_of_str su) u))"

definition window :: "(string \<times> real list) list \<Rightarrow> string \<Rightarrow> real list" where
  \<comment> \<open>\<^verbatim>\<open>prices.setdefault(coin,[])\<close>\<close>
  "window ps coin = (case map_of ps coin of None \<Rightarrow> [] | Some series \<Rightarrow> series)"

definition window_push :: "real \<Rightarrow> real list \<Rightarrow> real list" where
  \<comment> \<open>append, then \<^verbatim>\<open>[-120:]\<close>\<close>
  "window_push v series = last_n 120 (series @ [v])"

fun price_loop :: "config \<Rightarrow> json \<Rightarrow> string list \<Rightarrow> state \<Rightarrow> exn option \<times> state" where
  "price_loop su body [] s = (None, s)"
| "price_loop su body (coin # rest) s =
     (case coin_price su body coin of
        Inl e \<Rightarrow> (Some e, s)
      | Inr v \<Rightarrow>
         price_loop su body rest
           (s\<lparr>prices := AList.update coin (window_push v (window (prices s) coin)) (prices s)\<rparr>))"

definition cg_phase :: "config \<Rightarrow> tick_world \<Rightarrow> state \<Rightarrow> exn option \<times> state" where
  "cg_phase su w s =
     (case fetch_json CG_URL (cg w) s of
        (Inl e, s1) \<Rightarrow> (Some e, s1)
      | (Inr body, s1) \<Rightarrow>
         (if is_dict body then price_loop su body [''bitcoin'', ''ethereum''] s1
          else (None, s1)))"

subsection \<open>Wikipedia edits\<close>

fun wiki_loop :: "json list \<Rightarrow> json list \<Rightarrow> exn + json list" where
  "wiki_loop [] wiki_vals = Inr wiki_vals"
| "wiki_loop (it # rest) wiki_vals =
     (case dict_get it ''results'' (JDict []) of
        Inl e \<Rightarrow> Inl e
      | Inr results \<Rightarrow>
         (case dict_get results ''edits'' (JInt 0) of
            Inl e \<Rightarrow> Inl e
          | Inr v \<Rightarrow> wiki_loop rest (wiki_vals @ [v])))"

definition wiki_items :: "json \<Rightarrow> exn + json list" where
  \<comment> \<open>what \<^verbatim>\<open>for it in wiki.get("items", [])[-10:]\<close> visits\<close>
  "wiki_items body =
     (case dict_get body ''items'' (JList []) of
        Inl e \<Rightarrow> Inl e
      | Inr items \<Rightarrow>
         (case slice_last 10 items of
            Inl e \<Rightarrow> Inl e
          | Inr sl \<Rightarrow> py_iter sl))"

definition wiki_phase :: "tick_world \<Rightarrow> state \<Rightarrow> (exn + json list) \<times> state" where
  "wiki_phase w s =
     (case fetch_json WIKI_URL (wiki w) s of
        (Inl e, s1) \<Rightarrow> (Inl e, s1)
      | (Inr body, s1) \<Rightarrow>
         (if is_dict body then
            (case wiki_items body of
               Inl e \<Rightarrow> (Inl e, s1)
             | Inr its \<Rightarrow> (wiki_loop its [], s1))
          else (Inr [], s1)))"

subsection \<open>Item feeds: HackerNews, Reddit, NewsAPI\<close>

definition py_or :: "json \<Rightarrow> json \<Rightarrow> json" where
  \<comment> \<open>\<^verbatim>\<open>a or b\<close>, for a \<open>b\<close> whose evaluation cannot raise\<close>
  "py_or a b = (if truthy a then a else b)"

definition is_new :: "json \<Rightarrow> json \<Rightarrow> key set \<Rightarrow> exn + key option" where
  \<comment> \<open>\<^verbatim>\<open>nid and title and nid not in seen\<close>: the key to add when the test passes.
      The membership test hashes \<open>nid\<close>, and is reached only when both are truthy.\<close>
  "is_new nid ttl seen =
     (if truthy nid \<and> truthy ttl then
        (case py_hash nid of
           Inl e \<Rightarrow> Inl e
         | Inr k \<Rightarrow> Inr (if k \<notin> seen then Some k else None))
      else Inr None)"

text \<open>
  In \<^verbatim>\<open>hit.get("title") or hit.get("story_title") or ""\<close> the second \<^verbatim>\<open>get\<close> runs only
  when the first title is falsy; it cannot raise once the first \<^verbatim>\<open>get\<close> on the same
  \<open>hit\<close> has succeeded, so the loop evaluates it at once.
\<close>

fun hn_loop ::
  "real \<Rightarrow> json list \<Rightarrow> narrative list \<Rightarrow> state \<Rightarrow> (exn + narrative list) \<times> state" where
  "hn_loop tm [] narr s = (Inr narr, s)"
| "hn_loop tm (hit # rest) narr s =
     (case dict_get hit ''objectID'' JNull of
        Inl e \<Rightarrow> (Inl e, s)
      | Inr nid \<Rightarrow>
     (case dict_get hit ''title'' JNull of
        Inl e \<Rightarrow> (Inl e, s)
      | Inr t1 \<Rightarrow>
     (case dict_get hit ''story_title'' JNull of
        Inl e \<Rightarrow> (Inl e, s)
      | Inr t2 \<Rightarrow>
     (let ttl = py_or t1 (py_or t2 (JStr [])) in
      case is_new nid ttl (hn_seen s) of
        Inl e \<Rightarrow> (Inl e, s)
      | Inr None \<Rightarrow> hn_loop tm rest narr s
      | Inr (Some k) \<Rightarrow>
          hn_loop tm rest
            (narr @ [\<lparr>title = ttl, source = ''HackerNews'', t_narr = tm\<rparr>])
            (s\<lparr>hn_seen := insert k (hn_seen s)\<rparr>)))))"

definition hn_hits :: "json \<Rightarrow> exn + json list" where
  \<comment> \<open>what \<^verbatim>\<open>for hit in hn.get("hits", [])[:15]\<close> visits\<close>
  "hn_hits body =
     (case dict_get body ''hits'' (JList []) of
        Inl e \<Rightarrow> Inl e
      | Inr hits \<Rightarrow>
         (case slice_first 15 hits of
            Inl e \<Rightarrow> Inl e
          | Inr sl \<Rightarrow> py_iter sl))"

definition hn_phase :: "tick_world \<Rightarrow> state \<Rightarrow> (exn + narrative list) \<times> state" where
  "hn_phase w s =
     (case fetch_json HN_URL (hn w) s of
        (Inl e, s1) \<Rightarrow> (Inl e, s1)
      | (Inr body, s1) \<Rightarrow>
         (if is_dict body then
            (case hn_hits body of
               Inl e \<Rightarrow> (Inl e, s1)
             | Inr hits \<Rightarrow> hn_loop (now w) hits [] s1)
          else (Inr [], s1)))"

fun reddit_loop ::
  "real \<Rightarrow> json list \<Rightarrow> narrative list \<Rightarrow> state \<Rightarrow> (exn + narrative list) \<times> state" where
  "reddit_loop tm [] narr s = (Inr narr, s)"
| "reddit_loop tm (child # rest) narr s =
     (case dict_get child ''data'' (JDict []) of
        Inl e \<Rightarrow> (Inl e, s)
      | Inr data \<Rightarrow>
     (case dict_get data ''id'' JNull of
        Inl e \<Rightarrow> (Inl e, s)
      | Inr rid \<Rightarrow>
     (case dict_get data ''title'' (JStr []) of
        Inl e \<Rightarrow> (Inl e, s)
      | Inr ttl \<Rightarrow>
     (case is_new rid ttl (reddit_seen s) of
        Inl e \<Rightarrow> (Inl e, s)
      | Inr None \<Rightarrow> reddit_loop tm rest narr s
      | Inr (Some k) \<Rightarrow>
          reddit_loop tm rest
            (narr @ [\<lparr>title = ttl, source = ''Reddit/technology'', t_narr = tm\<rparr>])
            (s\<lparr>reddit_seen := insert k (reddit_seen s)\<rparr>)))))"

definition reddit_children :: "json \<Rightarrow> exn + json list" where
  \<comment> \<open>what \<^verbatim>\<open>for child in red.get("data",{}).get("children",[])\<close> visits\<close>
  "reddit_children body =
     (case dict_get body ''data'' (JDict []) of
        Inl e \<Rightarrow> Inl e
      | Inr data \<Rightarrow>
         (case dict_get data ''children'' (JList []) of
            Inl e \<Rightarrow> Inl e
          | Inr children \<Rightarrow> py_iter children))"

definition reddit_phase ::
  "tick_world \<Rightarrow> narrative list \<Rightarrow> state \<Rightarrow> (exn + narrative list) \<times> state" where
  "reddit_phase w narr s =
     (case fetch_json REDDIT_URL (red w) s of
        (Inl e, s1) \<Rightarrow> (Inl e, s1)
      | (Inr body, s1) \<Rightarrow>
         (if is_dict body then
            (case reddit_children body of
               Inl e \<Rightarrow> (Inl e, s1)
             | Inr children \<Rightarrow> reddit_loop (now w) children narr s1)
          else (Inr narr, s1)))"

fun news_loop :: "real \<Rightarrow> json list \<Rightarrow> narrative list \<Rightarrow> exn + narrative list" where
  "news_loop tm [] narr = Inr narr"
| "news_loop tm (art # rest) narr =
     (case dict_get art ''title'' (JStr []) of
        Inl e \<Rightarrow> Inl e
      | Inr ttl \<Rightarrow>
         (if truthy ttl
          then news_loop tm rest (narr @ [\<lparr>title = ttl, source = ''NewsAPI'', t_narr = tm\<rparr>])
          else news_loop tm rest narr))"

definition news_articles :: "json \<Rightarrow> exn + json list" where
  \<comment> \<open>what \<^verbatim>\<open>for art in news.get("articles",[])\<close> visits\<close>
  "news_articles body =
     (case dict_get body ''articles'' (JList []) of
        Inl e \<Rightarrow> Inl e
      | Inr articles \<Rightarrow> py_iter articles)"

definition news_phase ::
  "config \<Rightarrow> tick_world \<Rightarrow> narrative list \<Rightarrow> state \<Rightarrow> (exn + narrative list) \<times> state" where
  "news_phase su w narr s =
     (if NEWSAPI_KEY su \<noteq> [] then
        (case fetch_json (NEWS_URL su) (news w) s of
           (Inl e, s1) \<Rightarrow> (Inl e, s1)
         | (Inr body, s1) \<Rightarrow>
            (if is_dict body then
               (case news_articles body of
                  Inl e \<Rightarrow> (Inl e, s1)
                | Inr arts \<Rightarrow> (news_loop (now w) arts narr, s1))
             else (Inr narr, s1)))
      else (Inr narr, s))"

subsection \<open>Scores, persistence, publication\<close>

fun price_rows ::
  "real \<Rightarrow> (string \<times> real list) list \<Rightarrow> score_row list \<Rightarrow> exn + score_row list" where
  \<comment> \<open>\<^verbatim>\<open>for name, series in prices.items()\<close>\<close>
  "price_rows tm [] rows = Inr rows"
| "price_rows tm ((nm, series) # rest) rows =
     (case calc_stats series of
        Inl e \<Rightarrow> Inl e
      | Inr (s, v, t) \<Rightarrow>
          price_rows tm rest
            (rows @ [\<lparr>name = nm, score = s, velocity = v, trust = t, ts = tm\<rparr>]))"

fun float_all :: "(string \<Rightarrow> real option) \<Rightarrow> json list \<Rightarrow> exn + real list" where
  \<comment> \<open>\<^verbatim>\<open>[float(x) for x in wiki_vals]\<close>\<close>
  "float_all parse [] = Inr []"
| "float_all parse (x # xs) =
     (case py_float parse x of
        Inl e \<Rightarrow> Inl e
      | Inr r \<Rightarrow> (case float_all parse xs of Inl e \<Rightarrow> Inl e | Inr rs \<Rightarrow> Inr (r # rs)))"

definition compute_scores ::
  "config \<Rightarrow> real \<Rightarrow> (string \<times> real list) list \<Rightarrow> json list \<Rightarrow> exn + score_row list" where
  "compute_scores su tm ps wiki_vals =
     (case price_rows tm ps [] of
        Inl e \<Rightarrow> Inl e
      | Inr rows \<Rightarrow>
         (if wiki_vals \<noteq> [] then
            (case float_all (float_of_str su) wiki_vals of
               Inl e \<Rightarrow> Inl e
             | Inr series \<Rightarrow>
                (case calc_stats series of
                   Inl e \<Rightarrow> Inl e
                 | Inr (s, v, t) \<Rightarrow>
                     Inr (rows @ [\<lparr>name = ''wikipedia_edits'', score = s, velocity = v,
                                   trust = t, ts = tm\<rparr>])))
          else Inr rows))"

text \<open>
  The inserts of one tick are one transaction, committed at the end: when anything in
  it raises, nothing of it is stored.
\<close>

definition persist ::
  "score_row list \<Rightarrow> narrative list \<Rightarrow> exn option \<Rightarrow> state \<Rightarrow> exn option \<times> state" where
  "persist rows narr db s =
     (case db of
        Some e \<Rightarrow> (Some e, s)
      | None \<Rightarrow>
          (None, s\<lparr>db_scores := db_scores s @ rows, db_narratives := db_narratives s @ narr\<rparr>))"

definition publish :: "score_row list \<Rightarrow> narrative list \<Rightarrow> tick_world \<Rightarrow> state \<Rightarrow> state" where
  \<comment> \<open>``Keep latest view'': \<^verbatim>\<open>sorted(rows, key=..., reverse=True)\<close> is a stable sort
      by descending score\<close>
  "publish rows narr w s =
     (let s1 = push_scores (sort_key (\<lambda>r. - score r) rows) (put_scores w) s
      in if narr \<noteq> [] then
           (let s2 = s1\<lparr>narratives := last_n 50 (narratives s1 @ narr)\<rparr>
            in push_narratives (narratives s2) (put_narratives w) s2)
         else s1)"

definition tick_body :: "config \<Rightarrow> tick_world \<Rightarrow> state \<Rightarrow> exn option \<times> state" where
  \<comment> \<open>the body of the \<^verbatim>\<open>try\<close>: \<open>Some e\<close> when \<open>e\<close> is raised, with the state as it then is\<close>
  "tick_body su w s =
     (case cg_phase su w s of
        (Some e, s1) \<Rightarrow> (Some e, s1)
      | (None, s1) \<Rightarrow>
     (case wiki_phase w s1 of
        (Inl e, s2) \<Rightarrow> (Some e, s2)
      | (Inr wiki_vals, s2) \<Rightarrow>
     (case hn_phase w s2 of
        (Inl e, s3) \<Rightarrow> (Some e, s3)
      | (Inr narr1, s3) \<Rightarrow>
     (case reddit_phase w narr1 s3 of
        (Inl e, s4) \<Rightarrow> (Some e, s4)
      | (Inr narr2, s4) \<Rightarrow>
     (case news_phase su w narr2 s4 of
        (Inl e, s5) \<Rightarrow> (Some e, s5)
      | (Inr narr3, s5) \<Rightarrow>
     (case compute_scores su (now w) (prices s5) wiki_vals of
        Inl e \<Rightarrow> (Some e, s5)
      | Inr rows \<Rightarrow>
     (case persist rows narr3 (persist_db w) s5 of
        (Some e, s6) \<Rightarrow> (Some e, s6)
      | (None, s6) \<Rightarrow> (None, publish rows narr3 w s6))))))))"

text \<open>
  One iteration of \<^verbatim>\<open>while True\<close>: the body, and the handler of \<^verbatim>\<open>except Exception\<close>.
  \<open>Some e\<close> means that \<open>e\<close> leaves the loop, which ends the worker task: the only way
  is an exception raised by the handler itself. The sleep that follows is not modelled.
\<close>

definition worker_tick :: "config \<Rightarrow> tick_world \<Rightarrow> state \<Rightarrow> exn option \<times> state" where
  "worker_tick su w s =
     (case tick_body su w s of
        (Some e, s1) \<Rightarrow> log_incident ''loop_error'' (str_exn e) (on_error w) s1
      | (None, s1) \<Rightarrow> (None, s1))"

text \<open>
  The loop itself never returns. \<open>worker_run su ws s\<close> runs it for as many ticks as
  \<open>ws\<close> describes, one world per tick, and stops early if an exception leaves the loop.
\<close>

fun worker_run :: "config \<Rightarrow> tick_world list \<Rightarrow> state \<Rightarrow> exn option \<times> state" where
  "worker_run su [] s = (None, s)"
| "worker_run su (w # ws) s =
     (case worker_tick su w s of
        (Some e, s1) \<Rightarrow> (Some e, s1)
      | (None, s1) \<Rightarrow> worker_run su ws s1)"

section \<open>Auxiliary notions\<close>

text \<open>
  \<open>extends_tail n xs ys\<close>: the capped list \<open>ys\<close> is \<open>xs\<close> with some entries appended
  and all but the last \<open>n\<close> dropped.
\<close>

definition extends_tail :: "nat \<Rightarrow> 'a list \<Rightarrow> 'a list \<Rightarrow> bool" where
  "extends_tail n xs ys \<longleftrightarrow> (\<exists>new. ys = last_n n (xs @ new))"

text \<open>
  \<open>advances s s'\<close>: from \<open>s\<close> to \<open>s'\<close> the published narratives and the registry are
  untouched, the dedup sets have only grown, and the incident tail has only been
  extended. \<open>settles s s'\<close>: moreover the price windows are untouched.
\<close>

definition advances :: "state \<Rightarrow> state \<Rightarrow> bool" where
  "advances s s' \<longleftrightarrow>
     narratives s' = narratives s \<and> clients s' = clients s \<and>
     hn_seen s \<subseteq> hn_seen s' \<and> reddit_seen s \<subseteq> reddit_seen s' \<and>
     (length (incidents s) \<le> 100 \<longrightarrow> extends_tail 100 (incidents s) (incidents s'))"

definition settles :: "state \<Rightarrow> state \<Rightarrow> bool" where
  "settles s s' \<longleftrightarrow> advances s s' \<and> prices s' = prices s"

section \<open>Example worlds\<close>

text \<open>Concrete configurations and worlds, used to run the model on explicit inputs.\<close>

definition no_key :: config where
  "no_key = \<lparr>NEWSAPI_KEY = [], float_of_str = (\<lambda>s. None)\<rparr>"

definition with_key :: config where
  "with_key = \<lparr>NEWSAPI_KEY = ''k'', float_of_str = (\<lambda>s. None)\<rparr>"

definition quiet :: log_world where
  \<comment> \<open>the incident is written\<close>
  "quiet = \<lparr>log_time = 0, log_db = None\<rparr>"

definition locked :: log_world where
  \<comment> \<open>the insert of the incident raises\<close>
  "locked = \<lparr>log_time = 0, log_db = Some (Raised ''database is locked'')\<rparr>"

definition replied :: "json \<Rightarrow> fetch_world" where
  "replied body = \<lparr>http = Inr body, on_fail = quiet\<rparr>"


definition calm :: tick_world where
  \<comment> \<open>every source answers \<^verbatim>\<open>null\<close>, the database works, every queue accepts\<close>
  "calm =
     \<lparr>now = 1, cg = replied JNull, wiki = replied JNull, hn = replied JNull,
      red = replied JNull, news = replied JNull, persist_db = None,
      put_scores = (\<lambda>q. False), put_narratives = (\<lambda>q. False), on_error = quiet\<rparr>"



definition db_down :: tick_world where
  \<comment> \<open>the database is locked for the whole tick\<close>
  "db_down = calm\<lparr>persist_db := Some (Raised ''database is locked''), on_error := locked\<rparr>"

definition headline :: json where
  \<comment> \<open>\<^verbatim>\<open>{"articles": [{"title": "A"}]}\<close>\<close>
  "headline = JDict [(''articles'', JList [JDict [(''title'', JStr ''A'')]])]"

definition news_day :: tick_world where
  "news_day = calm\<lparr>news := replied headline\<rparr>"

definition front_page :: json where
  \<comment> \<open>\<^verbatim>\<open>{"hits": [{"objectID": "41", "title": "A"}]}\<close>\<close>
  "front_page = JDict [(''hits'', JList [JDict [(''objectID'', JStr ''41''), (''title'', JStr ''A'')]])]"

definition hn_day :: tick_world where
  "hn_day = calm\<lparr>hn := replied front_page\<rparr>"



definition logged :: "incident \<Rightarrow> state \<Rightarrow> state" where
  \<comment> \<open>the state once an incident is on the tail and in the database\<close>
  "logged inc s =
     s\<lparr>incidents := last_n 100 (incidents s @ [inc]),
       db_incidents := db_incidents s @ [inc]\<rparr>"


section \<open>Properties of \<^verbatim>\<open>calc_stats\<close>\<close>































section \<open>Capped tails\<close>

lemma length_last_n: "length (last_n n xs) = min n (length xs)"
  by (auto simp: last_n_def)

lemma last_n_short: "length xs \<le> n \<Longrightarrow> last_n n xs = xs"
  by (simp add: last_n_def)


lemma last_n_append_last_n: "last_n n (last_n n xs @ ys) = last_n n (xs @ ys)"
proof (cases "length xs \<le> n")
  case True
  then show ?thesis by (simp add: last_n_short)
next
  case False
  then have "length xs - (length xs - n) = n" by simp
  with False show ?thesis
    by (simp add: last_n_def add.commute)
qed

section \<open>Broadcaster\<close>

lemma deliver_dead:
  "fst (deliver raises p cs (dead, qs)) = dead @ filter raises cs"
  by (induction cs arbitrary: dead qs) simp_all

lemma deliver_queues_other:
  "q \<notin> set cs \<or> raises q \<Longrightarrow> snd (deliver raises p cs (dead, qs)) q = qs q"
  by (induction cs arbitrary: dead qs) auto

lemma deliver_queues_live:
  "distinct cs \<Longrightarrow> q \<in> set cs \<Longrightarrow> \<not> raises q \<Longrightarrow>
     snd (deliver raises p cs (dead, qs)) q = qs q @ [p]"
proof (induction cs arbitrary: dead qs)
  case Nil
  then show ?case by simp
next
  case (Cons c cs)
  show ?case
  proof (cases "c = q")
    case True
    with Cons.prems have "q \<notin> set cs" by simp
    then have "snd (deliver raises p cs (dead, qs(q := qs q @ [p]))) q = (qs(q := qs q @ [p])) q"
      by (intro deliver_queues_other) simp
    with True Cons.prems show ?thesis by simp
  next
    case False
    with Cons.prems have cs: "distinct cs" "q \<in> set cs" by simp_all
    have "snd (deliver raises p cs (dead', qs')) q = qs' q @ [p]" for dead' qs'
      using cs Cons.prems(3) by (rule Cons.IH)
    from this [of _ "qs(c := qs c @ [p])"] this [of _ qs] False
    show ?thesis by simp
  qed
qed

lemma fold_removeAll: "fold removeAll dead cs = filter (\<lambda>q. q \<notin> set dead) cs"
proof (induction dead arbitrary: cs)
  case Nil
  show ?case by simp
next
  case (Cons d dead)
  have "removeAll d cs = filter (\<lambda>q. q \<noteq> d) cs"
    by (induction cs) auto
  with Cons [of "removeAll d cs"] show ?case
    by (auto intro: filter_cong)
qed

lemma broadcast_clients:
  "clients (broadcast p raises s) = filter (\<lambda>q. \<not> raises q) (clients s)"
proof -
  obtain dead qs where d: "deliver raises p (clients s) ([], queues s) = (dead, qs)"
    by (cases "deliver raises p (clients s) ([], queues s)")
  then have "dead = filter raises (clients s)"
    using deliver_dead [of raises p "clients s" "[]" "queues s"] by simp
  then have "fold removeAll dead (clients s) = filter (\<lambda>q. \<not> raises q) (clients s)"
    by (auto simp: fold_removeAll intro: filter_cong)
  with d show ?thesis by (simp add: broadcast_def)
qed

lemma broadcast_queues:
  "queues (broadcast p raises s) = snd (deliver raises p (clients s) ([], queues s))"
  by (cases "deliver raises p (clients s) ([], queues s)") (simp add: broadcast_def)

text \<open>
  Claim C7: a fanout delivers to every subscriber registered when it starts, and a
  subscriber whose delivery raises is removed by that same call. With the registry free
  of repetitions (it is a set in the source): the registry after \<open>broadcast\<close> is the one
  before without the subscribers whose \<^verbatim>\<open>put\<close> raised, in the same order; every other
  registered subscriber has the message appended to its queue; and no queue of a removed
  or unregistered subscriber changes. Logging an incident leaves the registry alone.
\<close>

theorem fanout_delivers_and_prunes:
  assumes "distinct (clients s)"
  shows "clients (broadcast p raises s) = filter (\<lambda>q. \<not> raises q) (clients s) \<and>
         (\<forall>q\<in>set (clients s).
            if raises q
            then q \<notin> set (clients (broadcast p raises s)) \<and>
                 queues (broadcast p raises s) q = queues s q
            else q \<in> set (clients (broadcast p raises s)) \<and>
                 queues (broadcast p raises s) q = queues s q @ [p]) \<and>
         (\<forall>q. q \<notin> set (clients s) \<longrightarrow> queues (broadcast p raises s) q = queues s q) \<and>
         distinct (clients (broadcast p raises s)) \<and>
         clients (snd (log_incident knd msg lw s)) = clients s"
proof -
  have c: "clients (broadcast p raises s) = filter (\<lambda>q. \<not> raises q) (clients s)"
    by (rule broadcast_clients)
  have live: "queues (broadcast p raises s) q = queues s q @ [p]"
    if "q \<in> set (clients s)" "\<not> raises q" for q
    unfolding broadcast_queues using assms that by (rule deliver_queues_live)
  have other: "queues (broadcast p raises s) q = queues s q"
    if "q \<notin> set (clients s) \<or> raises q" for q
    unfolding broadcast_queues using that by (rule deliver_queues_other)
  have l: "clients (snd (log_incident knd msg lw s)) = clients s"
    by (simp add: log_incident_def Let_def split: option.splits)
  have d: "distinct (clients (broadcast p raises s))"
    unfolding c using assms by simp
  have "\<forall>q\<in>set (clients s).
            if raises q
            then q \<notin> set (clients (broadcast p raises s)) \<and>
                 queues (broadcast p raises s) q = queues s q
            else q \<in> set (clients (broadcast p raises s)) \<and>
                 queues (broadcast p raises s) q = queues s q @ [p]"
    using live other by (simp add: c)
  moreover have "\<forall>q. q \<notin> set (clients s) \<longrightarrow> queues (broadcast p raises s) q = queues s q"
    using other by simp
  ultimately show ?thesis using c d l by blast
qed

theorem fanout_delivers_and_prunes_witness:
  "clients (broadcast (ScoresMsg []) (\<lambda>q. q = 3) (stream 3 (stream 2 init_state))) = [2] \<and>
   queues (broadcast (ScoresMsg []) (\<lambda>q. q = 3) (stream 3 (stream 2 init_state))) 2
     = [ScoresMsg []] \<and>
   queues (broadcast (ScoresMsg []) (\<lambda>q. q = 3) (stream 3 (stream 2 init_state))) 3 = []"
proof -
  let ?s = "stream 3 (stream 2 init_state)"
  let ?b = "broadcast (ScoresMsg []) (\<lambda>q. q = 3) ?s"
  have cs: "clients ?s = [3, 2]" by (simp add: stream_def init_state_def)
  have qs: "queues ?s = (\<lambda>q. [])" by (simp add: stream_def init_state_def)
  have "distinct (clients ?s)" by (simp add: cs)
  note th = fanout_delivers_and_prunes [OF this, of "ScoresMsg []" "\<lambda>q. q = 3"]
  from th have "clients ?b = filter (\<lambda>q. \<not> q = 3) (clients ?s)" by (rule conjunct1)
  then have a: "clients ?b = [2]" by (simp add: cs)
  from th have "\<forall>q\<in>set (clients ?s).
            if q = 3
            then q \<notin> set (clients ?b) \<and> queues ?b q = queues ?s q
            else q \<in> set (clients ?b) \<and> queues ?b q = queues ?s q @ [ScoresMsg []]"
    by blast
  then have "queues ?b 2 = queues ?s 2 @ [ScoresMsg []] \<and> queues ?b 3 = queues ?s 3"
    unfolding cs by simp
  with a show ?thesis by (simp add: qs)
qed

section \<open>Extending a capped tail\<close>

lemma extends_tail_refl: "length xs \<le> n \<Longrightarrow> extends_tail n xs xs"
  unfolding extends_tail_def by (rule exI [of _ "[]"]) (simp add: last_n_short)

lemma extends_tail_trans:
  assumes "extends_tail n xs ys" and "extends_tail n ys zs"
  shows "extends_tail n xs zs"
proof -
  from assms obtain a b where "ys = last_n n (xs @ a)" "zs = last_n n (ys @ b)"
    unfolding extends_tail_def by blast
  then have "zs = last_n n (xs @ (a @ b))"
    by (simp add: last_n_append_last_n)
  then show ?thesis unfolding extends_tail_def by blast
qed

lemma extends_tail_length: "extends_tail n xs ys \<Longrightarrow> length ys \<le> n"
  unfolding extends_tail_def by (auto simp: length_last_n)

section \<open>IncidentLog and Fetcher\<close>

lemma log_incident_frame:
  "narratives (snd (log_incident knd msg lw s)) = narratives s"
  "scores (snd (log_incident knd msg lw s)) = scores s"
  "clients (snd (log_incident knd msg lw s)) = clients s"
  "queues (snd (log_incident knd msg lw s)) = queues s"
  "prices (snd (log_incident knd msg lw s)) = prices s"
  "hn_seen (snd (log_incident knd msg lw s)) = hn_seen s"
  "reddit_seen (snd (log_incident knd msg lw s)) = reddit_seen s"
  "db_scores (snd (log_incident knd msg lw s)) = db_scores s"
  "db_narratives (snd (log_incident knd msg lw s)) = db_narratives s"
  by (simp_all add: log_incident_def Let_def split: option.splits)

lemma log_incident_incidents:
  "incidents (snd (log_incident knd msg lw s)) =
     last_n 100 (incidents s @ [\<lparr>kind = knd, message = msg, t_inc = log_time lw\<rparr>])"
  by (simp add: log_incident_def Let_def split: option.splits)

lemma log_incident_result: "fst (log_incident knd msg lw s) = log_db lw"
  by (simp add: log_incident_def Let_def split: option.splits)

lemma log_incident_tail:
  "extends_tail 100 (incidents s) (incidents (snd (log_incident knd msg lw s)))"
  unfolding extends_tail_def log_incident_incidents by blast

lemma fetch_json_frame:
  "narratives (snd (fetch_json url fw s)) = narratives s"
  "scores (snd (fetch_json url fw s)) = scores s"
  "clients (snd (fetch_json url fw s)) = clients s"
  "queues (snd (fetch_json url fw s)) = queues s"
  "prices (snd (fetch_json url fw s)) = prices s"
  "hn_seen (snd (fetch_json url fw s)) = hn_seen s"
  "reddit_seen (snd (fetch_json url fw s)) = reddit_seen s"
  "db_scores (snd (fetch_json url fw s)) = db_scores s"
  "db_narratives (snd (fetch_json url fw s)) = db_narratives s"
  by (simp_all add: fetch_json_def log_incident_def Let_def split: sum.splits option.splits)

lemma fetch_json_tail:
  assumes "length (incidents s) \<le> 100"
  shows "extends_tail 100 (incidents s) (incidents (snd (fetch_json url fw s)))"
proof (cases "http fw")
  case (Inr body)
  with assms show ?thesis by (simp add: fetch_json_def extends_tail_refl)
next
  case (Inl e)
  let ?l = "log_incident ''fetch_error'' (url @ '' -> '' @ str_exn e) (on_fail fw) s"
  have "snd (fetch_json url fw s) = snd ?l"
    using Inl by (simp add: fetch_json_def split: prod.splits option.splits)
  then show ?thesis by (simp add: log_incident_tail)
qed


text \<open>
  Claim C6 says that \<^verbatim>\<open>fetch_json\<close> never raises to its caller. The handler awaits
  \<^verbatim>\<open>log_incident\<close>, whose insert into the database can raise, and nothing catches
  that: with the request failing on status 503 and the database locked, the call ends in
  the database's exception, after the incident was put on the in-memory tail.
\<close>

theorem fetch_raises_when_incident_write_fails:
  "fetch_json HN_URL
     \<lparr>http = Inl (Raised ''503 Service Unavailable''),
      on_fail = \<lparr>log_time = 5, log_db = Some (Raised ''database is locked'')\<rparr>\<rparr>
     init_state
   = (Inl (Raised ''database is locked''),
      init_state\<lparr>incidents :=
        [\<lparr>kind = ''fetch_error'',
          message = HN_URL @ '' -> 503 Service Unavailable'',
          t_inc = 5\<rparr>]\<rparr>)"
  by (simp add: fetch_json_def log_incident_def init_state_def last_n_def)

section \<open>What each phase of a tick leaves alone\<close>

lemma fetch_json_frameD:
  assumes "fetch_json url fw s = (r, s')"
  shows "narratives s' = narratives s \<and> clients s' = clients s \<and> prices s' = prices s \<and>
         hn_seen s' = hn_seen s \<and> reddit_seen s' = reddit_seen s \<and>
         (length (incidents s) \<le> 100 \<longrightarrow> extends_tail 100 (incidents s) (incidents s'))"
proof -
  have "s' = snd (fetch_json url fw s)" using assms by simp
  then show ?thesis by (simp add: fetch_json_frame fetch_json_tail)
qed

lemma price_loop_frame:
  "narratives (snd (price_loop su body coins s)) = narratives s \<and>
   incidents (snd (price_loop su body coins s)) = incidents s \<and>
   clients (snd (price_loop su body coins s)) = clients s \<and>
   hn_seen (snd (price_loop su body coins s)) = hn_seen s \<and>
   reddit_seen (snd (price_loop su body coins s)) = reddit_seen s"
  by (induction coins arbitrary: s) (simp_all split: sum.splits)

lemma cg_phase_frame:
  "narratives (snd (cg_phase su w s)) = narratives s \<and>
   clients (snd (cg_phase su w s)) = clients s \<and>
   hn_seen (snd (cg_phase su w s)) = hn_seen s \<and>
   reddit_seen (snd (cg_phase su w s)) = reddit_seen s \<and>
   (length (incidents s) \<le> 100 \<longrightarrow>
      extends_tail 100 (incidents s) (incidents (snd (cg_phase su w s))))"
proof -
  obtain r s1 where f: "fetch_json CG_URL (cg w) s = (r, s1)"
    by (cases "fetch_json CG_URL (cg w) s")
  note fr = fetch_json_frameD [OF f]
  show ?thesis
  proof (cases "\<exists>body. r = Inr body \<and> is_dict body")
    case True
    then obtain body where "r = Inr body" "is_dict body" by blast
    then have "snd (cg_phase su w s) = snd (price_loop su body [''bitcoin'', ''ethereum''] s1)"
      using f by (simp add: cg_phase_def)
    then show ?thesis
      using fr price_loop_frame [of su body "[''bitcoin'', ''ethereum'']" s1] by simp
  next
    case False
    then have "snd (cg_phase su w s) = s1"
      using f by (cases r) (auto simp: cg_phase_def)
    then show ?thesis using fr by simp
  qed
qed

lemma wiki_phase_state: "snd (wiki_phase w s) = snd (fetch_json WIKI_URL (wiki w) s)"
  by (simp add: wiki_phase_def split: prod.splits sum.splits)

lemma hn_loop_frame:
  "narratives (snd (hn_loop tm hits narr s)) = narratives s \<and>
   incidents (snd (hn_loop tm hits narr s)) = incidents s \<and>
   clients (snd (hn_loop tm hits narr s)) = clients s \<and>
   prices (snd (hn_loop tm hits narr s)) = prices s \<and>
   reddit_seen (snd (hn_loop tm hits narr s)) = reddit_seen s \<and>
   hn_seen s \<subseteq> hn_seen (snd (hn_loop tm hits narr s))"
proof (induction hits arbitrary: narr s)
  case Nil
  show ?case by simp
next
  case (Cons hit hits)
  show ?case
    using Cons [of narr s]
      Cons [of "narr @ [\<lparr>title = ttl, source = ''HackerNews'', t_narr = tm\<rparr>]"
               "s\<lparr>hn_seen := insert k (hn_seen s)\<rparr>" for ttl k]
    by (auto simp: Let_def split: sum.splits option.splits)
qed

lemma reddit_loop_frame:
  "narratives (snd (reddit_loop tm children narr s)) = narratives s \<and>
   incidents (snd (reddit_loop tm children narr s)) = incidents s \<and>
   clients (snd (reddit_loop tm children narr s)) = clients s \<and>
   prices (snd (reddit_loop tm children narr s)) = prices s \<and>
   hn_seen (snd (reddit_loop tm children narr s)) = hn_seen s \<and>
   reddit_seen s \<subseteq> reddit_seen (snd (reddit_loop tm children narr s))"
proof (induction children arbitrary: narr s)
  case Nil
  show ?case by simp
next
  case (Cons child children)
  show ?case
    using Cons [of narr s]
      Cons [of "narr @ [\<lparr>title = ttl, source = ''Reddit/technology'', t_narr = tm\<rparr>]"
               "s\<lparr>reddit_seen := insert k (reddit_seen s)\<rparr>" for ttl k]
    by (auto simp: Let_def split: sum.splits option.splits)
qed

lemma hn_phase_frame:
  "narratives (snd (hn_phase w s)) = narratives s \<and>
   clients (snd (hn_phase w s)) = clients s \<and>
   prices (snd (hn_phase w s)) = prices s \<and>
   reddit_seen (snd (hn_phase w s)) = reddit_seen s \<and>
   hn_seen s \<subseteq> hn_seen (snd (hn_phase w s)) \<and>
   (length (incidents s) \<le> 100 \<longrightarrow>
      extends_tail 100 (incidents s) (incidents (snd (hn_phase w s))))"
proof -
  obtain r s1 where f: "fetch_json HN_URL (hn w) s = (r, s1)"
    by (cases "fetch_json HN_URL (hn w) s")
  note fr = fetch_json_frameD [OF f]
  show ?thesis
  proof (cases "\<exists>body hits. r = Inr body \<and> is_dict body \<and> hn_hits body = Inr hits")
    case True
    then obtain body hits where "r = Inr body" "is_dict body" "hn_hits body = Inr hits"
      by blast
    then have "snd (hn_phase w s) = snd (hn_loop (now w) hits [] s1)"
      using f by (simp add: hn_phase_def)
    then show ?thesis
      using fr hn_loop_frame [of "now w" hits "[]" s1] by simp
  next
    case False
    then have "snd (hn_phase w s) = s1"
      using f by (cases r) (auto simp: hn_phase_def split: sum.splits)
    then show ?thesis using fr by simp
  qed
qed

lemma reddit_phase_frame:
  "narratives (snd (reddit_phase w narr s)) = narratives s \<and>
   clients (snd (reddit_phase w narr s)) = clients s \<and>
   prices (snd (reddit_phase w narr s)) = prices s \<and>
   hn_seen (snd (reddit_phase w narr s)) = hn_seen s \<and>
   reddit_seen s \<subseteq> reddit_seen (snd (reddit_phase w narr s)) \<and>
   (length (incidents s) \<le> 100 \<longrightarrow>
      extends_tail 100 (incidents s) (incidents (snd (reddit_phase w narr s))))"
proof -
  obtain r s1 where f: "fetch_json REDDIT_URL (red w) s = (r, s1)"
    by (cases "fetch_json REDDIT_URL (red w) s")
  note fr = fetch_json_frameD [OF f]
  show ?thesis
  proof (cases "\<exists>body cs. r = Inr body \<and> is_dict body \<and> reddit_children body = Inr cs")
    case True
    then obtain body cs where "r = Inr body" "is_dict body" "reddit_children body = Inr cs"
      by blast
    then have "snd (reddit_phase w narr s) = snd (reddit_loop (now w) cs narr s1)"
      using f by (simp add: reddit_phase_def)
    then show ?thesis
      using fr reddit_loop_frame [of "now w" cs narr s1] by simp
  next
    case False
    then have "snd (reddit_phase w narr s) = s1"
      using f by (cases r) (auto simp: reddit_phase_def split: sum.splits)
    then show ?thesis using fr by simp
  qed
qed

lemma news_phase_state:
  "snd (news_phase su w narr s) =
     (if NEWSAPI_KEY su \<noteq> [] then snd (fetch_json (NEWS_URL su) (news w) s) else s)"
  by (simp add: news_phase_def split: prod.splits sum.splits)

lemma persist_frame:
  "narratives (snd (persist rows narr db s)) = narratives s \<and>
   incidents (snd (persist rows narr db s)) = incidents s \<and>
   clients (snd (persist rows narr db s)) = clients s \<and>
   prices (snd (persist rows narr db s)) = prices s \<and>
   hn_seen (snd (persist rows narr db s)) = hn_seen s \<and>
   reddit_seen (snd (persist rows narr db s)) = reddit_seen s"
  by (simp add: persist_def split: option.splits)

lemma broadcast_frame:
  "narratives (broadcast p raises s) = narratives s \<and>
   incidents (broadcast p raises s) = incidents s \<and>
   prices (broadcast p raises s) = prices s \<and>
   hn_seen (broadcast p raises s) = hn_seen s \<and>
   reddit_seen (broadcast p raises s) = reddit_seen s"
  by (simp add: broadcast_def split: prod.splits)

lemma publish_frame:
  "incidents (publish rows narr w s) = incidents s \<and>
   prices (publish rows narr w s) = prices s \<and>
   hn_seen (publish rows narr w s) = hn_seen s \<and>
   reddit_seen (publish rows narr w s) = reddit_seen s"
  by (simp add: publish_def push_scores_def push_narratives_def broadcast_frame Let_def)

lemma publish_narratives:
  "narratives (publish rows narr w s) =
     (if narr \<noteq> [] then last_n 50 (narratives s @ narr) else narratives s)"
  by (simp add: publish_def push_scores_def push_narratives_def broadcast_frame Let_def)

lemma publish_clients:
  "clients (publish rows narr w s) =
     (if narr \<noteq> []
      then filter (\<lambda>q. \<not> put_narratives w q) (filter (\<lambda>q. \<not> put_scores w q) (clients s))
      else filter (\<lambda>q. \<not> put_scores w q) (clients s))"
  by (simp add: publish_def push_scores_def push_narratives_def broadcast_clients Let_def)

section \<open>One tick, phase by phase\<close>

lemma advances_refl: "advances s s"
  by (simp add: advances_def extends_tail_refl)

lemma advances_trans:
  assumes "advances s s1" and "advances s1 s2"
  shows "advances s s2"
proof -
  have "extends_tail 100 (incidents s) (incidents s2)" if len: "length (incidents s) \<le> 100"
  proof -
    from assms(1) len have e1: "extends_tail 100 (incidents s) (incidents s1)"
      by (simp add: advances_def)
    then have "length (incidents s1) \<le> 100" by (rule extends_tail_length)
    with assms(2) have "extends_tail 100 (incidents s1) (incidents s2)"
      by (simp add: advances_def)
    with e1 show ?thesis by (rule extends_tail_trans)
  qed
  with assms show ?thesis by (auto simp: advances_def)
qed

lemma settles_refl: "settles s s"
  by (simp add: settles_def advances_refl)

lemma settles_trans: "settles s s1 \<Longrightarrow> settles s1 s2 \<Longrightarrow> settles s s2"
  by (auto simp: settles_def intro: advances_trans)

lemma fetch_json_settles: "fetch_json url fw s = (r, s') \<Longrightarrow> settles s s'"
  by (drule fetch_json_frameD) (simp add: settles_def advances_def)


lemma cg_phase_advances: "cg_phase su w s = (r, s') \<Longrightarrow> advances s s'"
proof -
  assume "cg_phase su w s = (r, s')"
  then have "s' = snd (cg_phase su w s)" by simp
  then show ?thesis using cg_phase_frame [of su w s] by (simp add: advances_def)
qed

lemma wiki_phase_settles: "wiki_phase w s = (r, s') \<Longrightarrow> settles s s'"
proof -
  assume "wiki_phase w s = (r, s')"
  then have "s' = snd (fetch_json WIKI_URL (wiki w) s)"
    using wiki_phase_state [of w s] by simp
  then show ?thesis
    by (intro fetch_json_settles [of WIKI_URL "wiki w" s "fst (fetch_json WIKI_URL (wiki w) s)"])
      simp
qed

lemma hn_phase_settles: "hn_phase w s = (r, s') \<Longrightarrow> settles s s'"
proof -
  assume "hn_phase w s = (r, s')"
  then have "s' = snd (hn_phase w s)" by simp
  then show ?thesis using hn_phase_frame [of w s] by (simp add: settles_def advances_def)
qed

lemma reddit_phase_settles: "reddit_phase w narr s = (r, s') \<Longrightarrow> settles s s'"
proof -
  assume "reddit_phase w narr s = (r, s')"
  then have "s' = snd (reddit_phase w narr s)" by simp
  then show ?thesis
    using reddit_phase_frame [of w narr s] by (simp add: settles_def advances_def)
qed

lemma news_phase_settles: "news_phase su w narr s = (r, s') \<Longrightarrow> settles s s'"
proof -
  assume a: "news_phase su w narr s = (r, s')"
  show ?thesis
  proof (cases "NEWSAPI_KEY su \<noteq> []")
    case True
    with a have "s' = snd (fetch_json (NEWS_URL su) (news w) s)"
      using news_phase_state [of su w narr s] by simp
    then show ?thesis
      by (intro fetch_json_settles
            [of "NEWS_URL su" "news w" s "fst (fetch_json (NEWS_URL su) (news w) s)"]) simp
  next
    case False
    with a have "s' = s" using news_phase_state [of su w narr s] by simp
    then show ?thesis by (simp add: settles_refl)
  qed
qed

lemma persist_settles: "persist rows narr db s = (r, s') \<Longrightarrow> settles s s'"
proof -
  assume "persist rows narr db s = (r, s')"
  then have "s' = snd (persist rows narr db s)" by simp
  then show ?thesis
    using persist_frame [of rows narr db s]
    by (simp add: settles_def advances_def extends_tail_refl)
qed

text \<open>
  The body of a tick either stops at an exception before anything is published, or
  persists and publishes. \<open>s1\<close> is the state after the CoinGecko phase.
\<close>

lemma tick_body_cases:
  obtains (raised) e s' where "tick_body su w s = (Some e, s')"
      and "settles (snd (cg_phase su w s)) s'"
  | (published) rows narr s6 where "tick_body su w s = (None, publish rows narr w s6)"
      and "settles (snd (cg_phase su w s)) s6"
proof -
  obtain r1 s1 where c1: "cg_phase su w s = (r1, s1)" by (cases "cg_phase su w s")
  obtain r2 s2 where c2: "wiki_phase w s1 = (r2, s2)" by (cases "wiki_phase w s1")
  obtain r3 s3 where c3: "hn_phase w s2 = (r3, s3)" by (cases "hn_phase w s2")
  have t2: "settles s1 s2" using c2 by (rule wiki_phase_settles)
  have t3: "settles s1 s3" using t2 hn_phase_settles [OF c3] by (rule settles_trans)
  show ?thesis
  proof (cases r1)
    case (Some e)
    with c1 have "tick_body su w s = (Some e, s1)" by (simp add: tick_body_def)
    then show ?thesis using c1 by (intro raised [of e s1]) (simp_all add: settles_refl)
  next
    case None
    note r1 = this
    show ?thesis
    proof (cases r2)
      case (Inl e)
      with c1 c2 r1 have "tick_body su w s = (Some e, s2)" by (simp add: tick_body_def)
      then show ?thesis using c1 t2 by (intro raised [of e s2]) simp_all
    next
      case (Inr wiki_vals)
      note r2 = this
      show ?thesis
      proof (cases r3)
        case (Inl e)
        with c1 c2 c3 r1 r2 have "tick_body su w s = (Some e, s3)"
          by (simp add: tick_body_def)
        then show ?thesis using c1 t3 by (intro raised [of e s3]) simp_all
      next
        case (Inr narr1)
        note r3 = this
        obtain r4 s4 where c4: "reddit_phase w narr1 s3 = (r4, s4)"
          by (cases "reddit_phase w narr1 s3")
        have t4: "settles s1 s4"
          using t3 reddit_phase_settles [OF c4] by (rule settles_trans)
        show ?thesis
        proof (cases r4)
          case (Inl e)
          with c1 c2 c3 c4 r1 r2 r3 have "tick_body su w s = (Some e, s4)"
            by (simp add: tick_body_def)
          then show ?thesis using c1 t4 by (intro raised [of e s4]) simp_all
        next
          case (Inr narr2)
          note r4 = this
          obtain r5 s5 where c5: "news_phase su w narr2 s4 = (r5, s5)"
            by (cases "news_phase su w narr2 s4")
          have t5: "settles s1 s5"
            using t4 news_phase_settles [OF c5] by (rule settles_trans)
          show ?thesis
          proof (cases r5)
            case (Inl e)
            with c1 c2 c3 c4 c5 r1 r2 r3 r4 have "tick_body su w s = (Some e, s5)"
              by (simp add: tick_body_def)
            then show ?thesis using c1 t5 by (intro raised [of e s5]) simp_all
          next
            case (Inr narr3)
            note r5 = this
            show ?thesis
            proof (cases "compute_scores su (now w) (prices s5) wiki_vals")
              case (Inl e)
              with c1 c2 c3 c4 c5 r1 r2 r3 r4 r5 have "tick_body su w s = (Some e, s5)"
                by (simp add: tick_body_def)
              then show ?thesis using c1 t5 by (intro raised [of e s5]) simp_all
            next
              case (Inr rows)
              note rows = this
              obtain r6 s6 where c6: "persist rows narr3 (persist_db w) s5 = (r6, s6)"
                by (cases "persist rows narr3 (persist_db w) s5")
              have t6: "settles s1 s6"
                using t5 persist_settles [OF c6] by (rule settles_trans)
              show ?thesis
              proof (cases r6)
                case (Some e)
                with c1 c2 c3 c4 c5 c6 r1 r2 r3 r4 r5 rows
                have "tick_body su w s = (Some e, s6)"
                  by (simp add: tick_body_def)
                then show ?thesis using c1 t6 by (intro raised [of e s6]) simp_all
              next
                case None
                with c1 c2 c3 c4 c5 c6 r1 r2 r3 r4 r5 rows
                have "tick_body su w s = (None, publish rows narr3 w s6)"
                  by (simp add: tick_body_def)
                then show ?thesis using c1 t6 by (intro published [of rows narr3 s6]) simp_all
              qed
            qed
          qed
        qed
      qed
    qed
  qed
qed

section \<open>The worker loop\<close>

lemma worker_tick_cases:
  obtains (published) rows narr s6 where "worker_tick su w s = (None, publish rows narr w s6)"
      and "settles (snd (cg_phase su w s)) s6"
  | (caught) e s1 where "tick_body su w s = (Some e, s1)"
      and "settles (snd (cg_phase su w s)) s1"
      and "worker_tick su w s = log_incident ''loop_error'' (str_exn e) (on_error w) s1"
proof (cases rule: tick_body_cases [of su w s])
  case (raised e s')
  then show ?thesis by (intro caught [of e s']) (simp_all add: worker_tick_def)
next
  case (published rows narr s6)
  then show ?thesis by (intro that(1) [of rows narr s6]) (simp_all add: worker_tick_def)
qed




lemma worker_tick_clients:
  "clients (snd (worker_tick su w s)) = clients s \<or>
   clients (snd (worker_tick su w s)) = filter (\<lambda>q. \<not> put_scores w q) (clients s) \<or>
   clients (snd (worker_tick su w s)) =
     filter (\<lambda>q. \<not> put_narratives w q) (filter (\<lambda>q. \<not> put_scores w q) (clients s))"
proof -
  have a: "advances s (snd (cg_phase su w s))"
    by (rule cg_phase_advances [of su w s "fst (cg_phase su w s)"]) simp
  show ?thesis
  proof (cases rule: worker_tick_cases [of su w s])
    case (published rows narr s6)
    then have "clients s6 = clients s"
      using a by (simp add: settles_def advances_def)
    with published(1) show ?thesis by (simp add: publish_clients)
  next
    case (caught e s1)
    then have "clients (snd (worker_tick su w s)) = clients s"
      using a by (simp add: log_incident_frame settles_def advances_def)
    then show ?thesis by simp
  qed
qed

lemma worker_tick_seen:
  "hn_seen s \<subseteq> hn_seen (snd (worker_tick su w s)) \<and>
   reddit_seen s \<subseteq> reddit_seen (snd (worker_tick su w s))"
proof -
  have a: "advances s (snd (cg_phase su w s))"
    by (rule cg_phase_advances [of su w s "fst (cg_phase su w s)"]) simp
  show ?thesis
  proof (cases rule: worker_tick_cases [of su w s])
    case (published rows narr s6)
    then have "advances s s6" using a by (auto simp: settles_def intro: advances_trans)
    with published(1) show ?thesis by (simp add: publish_frame advances_def)
  next
    case (caught e s1)
    then have "advances s s1" using a by (auto simp: settles_def intro: advances_trans)
    with caught(3) show ?thesis by (simp add: log_incident_frame advances_def)
  qed
qed




section \<open>The price windows\<close>











section \<open>Exceptions at the tick boundary\<close>

text \<open>What the handler does when the incident can be written.\<close>

lemma worker_tick_contained:
  assumes "log_db (on_error w) = None"
  shows "fst (worker_tick su w s) = None"
    and "tick_body su w s = (Some e, s1) \<Longrightarrow>
           worker_tick su w s =
             (None, logged \<lparr>kind = ''loop_error'', message = str_exn e,
                            t_inc = log_time (on_error w)\<rparr> s1)"
proof -
  show "fst (worker_tick su w s) = None"
  proof (cases rule: worker_tick_cases [of su w s])
    case (published rows narr s6)
    then show ?thesis by simp
  next
    case (caught e s')
    with assms show ?thesis by (simp add: log_incident_result)
  qed
  show "worker_tick su w s =
      (None, logged \<lparr>kind = ''loop_error'', message = str_exn e,
                     t_inc = log_time (on_error w)\<rparr> s1)"
    if "tick_body su w s = (Some e, s1)"
    using that assms by (simp add: worker_tick_def log_incident_def logged_def Let_def)
qed

text \<open>
  Claim C4 says that the worker never ends because of one tick's failure. The handler of
  the tick awaits \<^verbatim>\<open>log_incident\<close>, and what that raises leaves the loop: with the
  database locked, the commit of the tick raises, the handler's own insert raises, and
  the worker ends during its first tick. The tick that would follow never runs: the
  scores are still unpublished after a run that was given two ticks.
\<close>

theorem worker_ends_when_incident_write_fails:
  "worker_tick no_key db_down init_state =
     (Some (Raised ''database is locked''),
      init_state\<lparr>incidents :=
        [\<lparr>kind = ''loop_error'', message = ''database is locked'', t_inc = 0\<rparr>]\<rparr>) \<and>
   worker_run no_key [db_down, calm] init_state = worker_tick no_key db_down init_state \<and>
   scores (snd (worker_run no_key [db_down, calm] init_state)) = []"
proof -
  have b: "tick_body no_key db_down init_state = (Some (Raised ''database is locked''), init_state)"
    by (simp add: tick_body_def cg_phase_def wiki_phase_def hn_phase_def reddit_phase_def
        news_phase_def fetch_json_def compute_scores_def calc_stats_def persist_def
        db_down_def calm_def replied_def no_key_def init_state_def)
  have t: "worker_tick no_key db_down init_state =
     (Some (Raised ''database is locked''),
      init_state\<lparr>incidents :=
        [\<lparr>kind = ''loop_error'', message = ''database is locked'', t_inc = 0\<rparr>]\<rparr>)"
    unfolding worker_tick_def b
    by (simp add: log_incident_def db_down_def calm_def locked_def init_state_def last_n_def)
  then have r: "worker_run no_key [db_down, calm] init_state = worker_tick no_key db_down init_state"
    by simp
  have "scores (snd (worker_run no_key [db_down, calm] init_state)) = []"
    unfolding r t by (simp add: init_state_def)
  with t r show ?thesis by simp
qed

section \<open>Deduplication of item feeds\<close>

lemma is_new_Some_iff:
  "is_new nid ttl seen = Inr (Some k) \<longleftrightarrow>
     truthy nid \<and> truthy ttl \<and> py_hash nid = Inr k \<and> k \<notin> seen"
  by (auto simp: is_new_def split: sum.splits)

text \<open>
  HackerNews and Reddit: an item whose identifier is in the set is passed over, and each
  accepted item puts one new identifier into the set.
\<close>

lemma is_new_seen: "py_hash nid = Inr k \<Longrightarrow> k \<in> seen \<Longrightarrow> is_new nid ttl seen = Inr None"
  by (simp add: is_new_def)

lemma hn_loop_seen_dropped:
  assumes "dict_get hit ''objectID'' JNull = Inr nid" and "py_hash nid = Inr k"
    and "k \<in> hn_seen s"
  shows "hn_loop tm [hit] narr s = (Inr narr, s)"
proof -
  obtain d where hit: "hit = JDict d" using assms(1) by (cases hit) auto
  have "is_new nid ttl (hn_seen s) = Inr None" for ttl
    using assms(2,3) by (rule is_new_seen)
  moreover have "dict_get hit ''title'' JNull = Inr (case map_of d ''title'' of None \<Rightarrow> JNull | Some v \<Rightarrow> v)"
    "dict_get hit ''story_title'' JNull
       = Inr (case map_of d ''story_title'' of None \<Rightarrow> JNull | Some v \<Rightarrow> v)"
    by (simp_all add: hit)
  ultimately show ?thesis
    by (simp add: assms(1) Let_def del: dict_get.simps)
qed

lemma reddit_loop_seen_dropped:
  assumes "dict_get child ''data'' (JDict []) = Inr data"
    and "dict_get data ''id'' JNull = Inr rid" and "py_hash rid = Inr k"
    and "k \<in> reddit_seen s"
  shows "reddit_loop tm [child] narr s = (Inr narr, s)"
proof -
  obtain d where data: "data = JDict d" using assms(2) by (cases data) auto
  have "is_new rid ttl (reddit_seen s) = Inr None" for ttl
    using assms(3,4) by (rule is_new_seen)
  moreover have "dict_get data ''title'' (JStr [])
       = Inr (case map_of d ''title'' of None \<Rightarrow> JStr [] | Some v \<Rightarrow> v)"
    by (simp add: data)
  ultimately show ?thesis
    by (simp add: assms(1,2) del: dict_get.simps)
qed

lemma card_new_keys:
  assumes "finite B" and "insert k A \<subseteq> B" and "k \<notin> A"
  shows "card (B - A) = Suc (card (B - insert k A))"
proof -
  let ?C = "B - insert k A"
  have eq: "B - A = insert k ?C" using assms by auto
  have "k \<notin> ?C" by simp
  moreover have "finite ?C" using assms by simp
  ultimately have "card (insert k ?C) = Suc (card ?C)" by (rule card_insert_disjoint [rotated])
  then show ?thesis by (simp only: eq)
qed

lemma hn_loop_finite: "finite (hn_seen (snd (hn_loop tm hits narr s))) = finite (hn_seen s)"
proof (induction hits arbitrary: narr s)
  case Nil
  show ?case by simp
next
  case (Cons hit hits)
  show ?case
    using Cons [of narr s]
      Cons [of "narr @ [\<lparr>title = ttl, source = ''HackerNews'', t_narr = tm\<rparr>]"
               "s\<lparr>hn_seen := insert k (hn_seen s)\<rparr>" for ttl k]
    by (auto simp: Let_def split: sum.splits option.splits)
qed

lemma hn_loop_new_keys:
  assumes "finite (hn_seen s)" and "hn_loop tm hits narr s = (Inr narr', s')"
  shows "length narr' = length narr + card (hn_seen s' - hn_seen s)"
  using assms
proof (induction hits arbitrary: narr s)
  case Nil
  then show ?case by simp
next
  case (Cons hit hits)
  from Cons.prems(2) obtain d where hit: "hit = JDict d" by (cases hit) auto
  define nid where "nid = (case map_of d ''objectID'' of None \<Rightarrow> JNull | Some v \<Rightarrow> v)"
  define ttl where "ttl = py_or (case map_of d ''title'' of None \<Rightarrow> JNull | Some v \<Rightarrow> v)
      (py_or (case map_of d ''story_title'' of None \<Rightarrow> JNull | Some v \<Rightarrow> v) (JStr []))"
  show ?case
  proof (cases "is_new nid ttl (hn_seen s)")
    case (Inl e)
    with Cons.prems(2) show ?thesis by (simp add: hit nid_def ttl_def)
  next
    case (Inr r)
    show ?thesis
    proof (cases r)
      case None
      with Inr Cons.prems(2) have "hn_loop tm hits narr s = (Inr narr', s')"
        by (simp add: hit nid_def ttl_def)
      with Cons.IH [OF Cons.prems(1)] show ?thesis .
    next
      case (Some k)
      let ?s = "s\<lparr>hn_seen := insert k (hn_seen s)\<rparr>"
      let ?n = "narr @ [\<lparr>title = ttl, source = ''HackerNews'', t_narr = tm\<rparr>]"
      from Some Inr Cons.prems(2) have run: "hn_loop tm hits ?n ?s = (Inr narr', s')"
        by (simp add: hit nid_def ttl_def)
      have fin: "finite (hn_seen ?s)" using Cons.prems(1) by simp
      have len: "length narr' = length ?n + card (hn_seen s' - hn_seen ?s)"
        using fin run by (rule Cons.IH)
      have k: "k \<notin> hn_seen s" using Inr Some by (simp add: is_new_Some_iff)
      have "hn_seen ?s \<subseteq> hn_seen (snd (hn_loop tm hits ?n ?s))"
        using hn_loop_frame [of tm hits ?n ?s] by blast
      then have sub: "insert k (hn_seen s) \<subseteq> hn_seen s'" using run by simp
      have "finite (hn_seen (snd (hn_loop tm hits ?n ?s)))"
        using fin by (simp only: hn_loop_finite)
      then have "finite (hn_seen s')" using run by simp
      then have "card (hn_seen s' - hn_seen s) = Suc (card (hn_seen s' - insert k (hn_seen s)))"
        using sub k by (rule card_new_keys)
      with len show ?thesis by simp
    qed
  qed
qed

lemma reddit_loop_finite:
  "finite (reddit_seen (snd (reddit_loop tm children narr s))) = finite (reddit_seen s)"
proof (induction children arbitrary: narr s)
  case Nil
  show ?case by simp
next
  case (Cons child children)
  show ?case
    using Cons [of narr s]
      Cons [of "narr @ [\<lparr>title = ttl, source = ''Reddit/technology'', t_narr = tm\<rparr>]"
               "s\<lparr>reddit_seen := insert k (reddit_seen s)\<rparr>" for ttl k]
    by (auto split: sum.splits option.splits)
qed

lemma reddit_loop_new_keys:
  assumes "finite (reddit_seen s)" and "reddit_loop tm children narr s = (Inr narr', s')"
  shows "length narr' = length narr + card (reddit_seen s' - reddit_seen s)"
  using assms
proof (induction children arbitrary: narr s)
  case Nil
  then show ?case by simp
next
  case (Cons child children)
  from Cons.prems(2) obtain c where child: "child = JDict c" by (cases child) auto
  define data where "data = (case map_of c ''data'' of None \<Rightarrow> JDict [] | Some v \<Rightarrow> v)"
  from Cons.prems(2) obtain d where data: "data = JDict d"
    by (cases data) (auto simp: child data_def)
  define rid where "rid = (case map_of d ''id'' of None \<Rightarrow> JNull | Some v \<Rightarrow> v)"
  define ttl where "ttl = (case map_of d ''title'' of None \<Rightarrow> JStr [] | Some v \<Rightarrow> v)"
  have gets: "dict_get child ''data'' (JDict []) = Inr (JDict d)"
      "dict_get (JDict d) ''id'' JNull = Inr rid"
      "dict_get (JDict d) ''title'' (JStr []) = Inr ttl"
    using data by (simp_all add: child data_def rid_def ttl_def)
  show ?case
  proof (cases "is_new rid ttl (reddit_seen s)")
    case (Inl e)
    with Cons.prems(2) show ?thesis by (simp add: gets del: dict_get.simps)
  next
    case (Inr r)
    show ?thesis
    proof (cases r)
      case None
      with Inr Cons.prems(2) have "reddit_loop tm children narr s = (Inr narr', s')"
        by (simp add: gets del: dict_get.simps)
      with Cons.IH [OF Cons.prems(1)] show ?thesis .
    next
      case (Some k)
      let ?s = "s\<lparr>reddit_seen := insert k (reddit_seen s)\<rparr>"
      let ?n = "narr @ [\<lparr>title = ttl, source = ''Reddit/technology'', t_narr = tm\<rparr>]"
      from Some Inr Cons.prems(2) have run: "reddit_loop tm children ?n ?s = (Inr narr', s')"
        by (simp add: gets del: dict_get.simps)
      have fin: "finite (reddit_seen ?s)" using Cons.prems(1) by simp
      have len: "length narr' = length ?n + card (reddit_seen s' - reddit_seen ?s)"
        using fin run by (rule Cons.IH)
      have k: "k \<notin> reddit_seen s" using Inr Some by (simp add: is_new_Some_iff)
      have "reddit_seen ?s \<subseteq> reddit_seen (snd (reddit_loop tm children ?n ?s))"
        using reddit_loop_frame [of tm children ?n ?s] by blast
      then have sub: "insert k (reddit_seen s) \<subseteq> reddit_seen s'" using run by simp
      have "finite (reddit_seen (snd (reddit_loop tm children ?n ?s)))"
        using fin by (simp only: reddit_loop_finite)
      then have "finite (reddit_seen s')" using run by simp
      then have "card (reddit_seen s' - reddit_seen s)
                   = Suc (card (reddit_seen s' - insert k (reddit_seen s)))"
        using sub k by (rule card_new_keys)
      with len show ?thesis by simp
    qed
  qed
qed

text \<open>The sets are never cleared: what a tick has seen stays seen in every later tick.\<close>

lemma worker_run_seen:
  "hn_seen s \<subseteq> hn_seen (snd (worker_run su ws s)) \<and>
   reddit_seen s \<subseteq> reddit_seen (snd (worker_run su ws s))"
proof (induction ws arbitrary: s)
  case Nil
  show ?case by simp
next
  case (Cons w ws)
  obtain r s1 where t: "worker_tick su w s = (r, s1)" by (cases "worker_tick su w s")
  then have 1: "hn_seen s \<subseteq> hn_seen s1 \<and> reddit_seen s \<subseteq> reddit_seen s1"
    using worker_tick_seen [of s su w] by simp
  show ?case
  proof (cases r)
    case None
    with t 1 Cons [of s1] show ?thesis by auto
  next
    case (Some e)
    with t 1 show ?thesis by simp
  qed
qed

text \<open>Sources that answer with something other than a dict are passed over in silence.\<close>

lemma cg_phase_skip:
  "http (cg w) = Inr body \<Longrightarrow> \<not> is_dict body \<Longrightarrow> cg_phase su w s = (None, s)"
  by (simp add: cg_phase_def fetch_json_def)

lemma wiki_phase_skip:
  "http (wiki w) = Inr body \<Longrightarrow> \<not> is_dict body \<Longrightarrow> wiki_phase w s = (Inr [], s)"
  by (simp add: wiki_phase_def fetch_json_def)

lemma hn_phase_skip:
  "http (hn w) = Inr body \<Longrightarrow> \<not> is_dict body \<Longrightarrow> hn_phase w s = (Inr [], s)"
  by (simp add: hn_phase_def fetch_json_def)

lemma reddit_phase_skip:
  "http (red w) = Inr body \<Longrightarrow> \<not> is_dict body \<Longrightarrow> reddit_phase w narr s = (Inr narr, s)"
  by (simp add: reddit_phase_def fetch_json_def)

lemma news_phase_skip:
  "http (news w) = Inr body \<Longrightarrow> \<not> is_dict body \<Longrightarrow> news_phase su w narr s = (Inr narr, s)"
  by (simp add: news_phase_def fetch_json_def)


lemma publish_pushed:
  "scores (publish rows narr w s) = sort_key (\<lambda>r. - score r) rows \<and>
   db_scores (publish rows narr w s) = db_scores s \<and>
   db_narratives (publish rows narr w s) = db_narratives s \<and>
   db_incidents (publish rows narr w s) = db_incidents s"
  by (simp add: publish_def push_scores_def push_narratives_def broadcast_def Let_def
      split: prod.splits)

lemma cold_scores:
  "compute_scores su tm [(''bitcoin'', []), (''ethereum'', [])] [] =
     Inr [\<lparr>name = ''bitcoin'', score = 0, velocity = 0, trust = 0, ts = tm\<rparr>,
          \<lparr>name = ''ethereum'', score = 0, velocity = 0, trust = 0, ts = tm\<rparr>]"
  by (simp add: compute_scores_def calc_stats_def)

text \<open>
  Claim C2 says that in every item feed an identifier is accepted at most once. The
  NewsAPI loop keeps no set of identifiers: when two ticks receive the same article both
  append it, to the snapshot and to the store. The HackerNews loop, given the same hit
  on two ticks, accepts it once.
\<close>

theorem news_items_accepted_again:
  "map title (narratives (snd (worker_run with_key [news_day, news_day] init_state)))
     = [JStr ''A'', JStr ''A''] \<and>
   map source (db_narratives (snd (worker_run with_key [news_day, news_day] init_state)))
     = [''NewsAPI'', ''NewsAPI''] \<and>
   map title (narratives (snd (worker_run with_key [hn_day, hn_day] init_state)))
     = [JStr ''A'']"
proof -
  define rows where "rows =
     [\<lparr>name = ''bitcoin'', score = 0, velocity = 0, trust = 0, ts = 1\<rparr>,
      \<lparr>name = ''ethereum'', score = 0, velocity = 0, trust = 0, ts = 1\<rparr>]"
  define a where "a = \<lparr>title = JStr ''A'', source = ''NewsAPI'', t_narr = 1\<rparr>"
  define h where "h = \<lparr>title = JStr ''A'', source = ''HackerNews'', t_narr = 1\<rparr>"
  have cold: "prices init_state = [(''bitcoin'', []), (''ethereum'', [])]"
    by (simp add: init_state_def)
  have other: "http (cg news_day) = Inr JNull" "http (wiki news_day) = Inr JNull"
      "http (hn news_day) = Inr JNull" "http (red news_day) = Inr JNull"
      "http (cg hn_day) = Inr JNull" "http (wiki hn_day) = Inr JNull"
      "http (red hn_day) = Inr JNull" "http (news hn_day) = Inr JNull"
    by (simp_all add: news_day_def hn_day_def calm_def replied_def)
  have world: "now news_day = 1" "persist_db news_day = None" "now hn_day = 1"
      "persist_db hn_day = None"
    by (simp_all add: news_day_def hn_day_def calm_def)
  \<comment> \<open>NewsAPI: every tick accepts the article\<close>
  have news: "news_phase with_key news_day [] s = (Inr [a], s)" for s
    by (simp add: news_phase_def fetch_json_def news_articles_def news_day_def headline_def
        calm_def replied_def with_key_def a_def)
  have tick_n: "worker_tick with_key news_day s =
      (None, publish rows [a] news_day
         (s\<lparr>db_scores := db_scores s @ rows, db_narratives := db_narratives s @ [a]\<rparr>))"
    if "prices s = prices init_state" for s
    using that
    by (simp add: worker_tick_def tick_body_def cg_phase_skip [OF other(1)]
        wiki_phase_skip [OF other(2)] hn_phase_skip [OF other(3)]
        reddit_phase_skip [OF other(4)] news cold cold_scores world persist_def rows_def)
  have step_n: "fst (worker_tick with_key news_day s) = None \<and>
      prices (snd (worker_tick with_key news_day s)) = prices init_state \<and>
      narratives (snd (worker_tick with_key news_day s)) = last_n 50 (narratives s @ [a]) \<and>
      db_narratives (snd (worker_tick with_key news_day s)) = db_narratives s @ [a]"
    if "prices s = prices init_state" for s
    using that by (simp add: tick_n publish_frame publish_narratives publish_pushed)
  obtain r1 s1 where t1: "worker_tick with_key news_day init_state = (r1, s1)"
    by (cases "worker_tick with_key news_day init_state")
  with step_n [of init_state] have s1: "r1 = None" "prices s1 = prices init_state"
      "narratives s1 = [a]" "db_narratives s1 = [a]"
    by (simp_all add: init_state_def last_n_def)
  obtain r2 s2 where t2: "worker_tick with_key news_day s1 = (r2, s2)"
    by (cases "worker_tick with_key news_day s1")
  with step_n [OF s1(2)] have s2: "r2 = None" "narratives s2 = [a, a]"
      "db_narratives s2 = [a, a]"
    by (simp_all add: s1 last_n_def)
  have run_n: "worker_run with_key [news_day, news_day] init_state = (None, s2)"
    by (simp add: t1 t2 s1(1) s2(1))
  \<comment> \<open>HackerNews: the second tick finds the identifier in the set\<close>
  have hn1: "hn_phase hn_day s = (Inr [h], s\<lparr>hn_seen := insert (KStr ''41'') (hn_seen s)\<rparr>)"
    if "KStr ''41'' \<notin> hn_seen s" for s
    using that
    by (simp add: hn_phase_def fetch_json_def hn_hits_def hn_day_def front_page_def
        calm_def replied_def is_new_def py_or_def h_def)
  have hn2: "hn_phase hn_day s = (Inr [], s)" if "KStr ''41'' \<in> hn_seen s" for s
    using that
    by (simp add: hn_phase_def fetch_json_def hn_hits_def hn_day_def front_page_def
        calm_def replied_def is_new_def py_or_def)
  have key: "NEWSAPI_KEY with_key \<noteq> []" by (simp add: with_key_def)
  have tick_h1: "worker_tick with_key hn_day s =
      (None, publish rows [h] hn_day
         (s\<lparr>hn_seen := insert (KStr ''41'') (hn_seen s),
            db_scores := db_scores s @ rows, db_narratives := db_narratives s @ [h]\<rparr>))"
    if "prices s = prices init_state" "KStr ''41'' \<notin> hn_seen s" for s
    using that
    by (simp add: worker_tick_def tick_body_def cg_phase_skip [OF other(5)]
        wiki_phase_skip [OF other(6)] hn1 reddit_phase_skip [OF other(7)]
        news_phase_skip [OF other(8)] cold cold_scores world persist_def rows_def)
  have tick_h2: "worker_tick with_key hn_day s =
      (None, publish rows [] hn_day (s\<lparr>db_scores := db_scores s @ rows\<rparr>))"
    if "prices s = prices init_state" "KStr ''41'' \<in> hn_seen s" for s
    using that
    by (simp add: worker_tick_def tick_body_def cg_phase_skip [OF other(5)]
        wiki_phase_skip [OF other(6)] hn2 reddit_phase_skip [OF other(7)]
        news_phase_skip [OF other(8)] cold cold_scores world persist_def rows_def)
  obtain q1 u1 where v1: "worker_tick with_key hn_day init_state = (q1, u1)"
    by (cases "worker_tick with_key hn_day init_state")
  have "prices init_state = prices init_state" "KStr ''41'' \<notin> hn_seen init_state"
    by (simp_all add: init_state_def)
  from tick_h1 [OF this] v1 have u1: "q1 = None" "prices u1 = prices init_state"
      "KStr ''41'' \<in> hn_seen u1" "narratives u1 = [h]"
    by (auto simp: publish_frame publish_narratives init_state_def last_n_def)
  obtain q2 u2 where v2: "worker_tick with_key hn_day u1 = (q2, u2)"
    by (cases "worker_tick with_key hn_day u1")
  from tick_h2 [OF u1(2,3)] v2 have u2: "q2 = None" "narratives u2 = [h]"
    by (auto simp: publish_narratives u1)
  have run_h: "worker_run with_key [hn_day, hn_day] init_state = (None, u2)"
    by (simp add: v1 v2 u1(1) u2(1))
  show ?thesis
    unfolding run_n run_h by (simp add: s2 u2 a_def h_def)
qed

section \<open>A source whose fetch fails\<close>












end
